theory Spec2Isabelle
  imports Complex_Main
begin

section \<open>Arithmetic kernel\<close>

text \<open>
  The counters of \<^verbatim>\<open>droop/rules/meek.py\<close> and \<^verbatim>\<open>droop/rules/wigm_prf.py\<close> are generic in
  the value class \<^verbatim>\<open>E.V\<close>. The value module itself is not part of the sources at hand, so the
  class is a parameter of every definition below: a record of its constants and its rounded
  operations over a carrier \<open>'v\<close>. Addition, subtraction and the order are those of the
  carrier (an ordered ring: scaled integers for fixed point, rationals for exact
  arithmetic); \<^verbatim>\<open>V0\<close> is its zero.
\<close>

datatype rounding = Up | Down | Nearest

record 'v arith =
  exact :: bool
  precision :: nat
  V1 :: 'v
  epsilon :: 'v
  vmul :: "'v \<Rightarrow> 'v \<Rightarrow> rounding \<Rightarrow> 'v"
  vdiv :: "'v \<Rightarrow> 'v \<Rightarrow> rounding \<Rightarrow> 'v"

text \<open>\<^verbatim>\<open>V(n)\<close>: the value of the integer \<open>n\<close>.\<close>

definition V :: "('v::linordered_idom) arith \<Rightarrow> int \<Rightarrow> 'v" where
  "V A k = of_int k * V1 A"

text \<open>
  Modelled from the spec: the fixed-point kernel \<^verbatim>\<open>fixed(p)\<close>, which is not among the sources.
  An integer \<open>x\<close> stands for \<open>x / 10^p\<close>; products and quotients are floored, after adding
  what the rounding mode asks for; \<open>epsilon\<close> is one unit.
\<close>

definition fixed :: "nat \<Rightarrow> int arith" where
  "fixed p = \<lparr> exact = False, precision = p, V1 = 10 ^ p, epsilon = 1,
     vmul = (\<lambda>a b r. case r of
        Up \<Rightarrow> (a * b + (10 ^ p - 1)) div 10 ^ p
      | Down \<Rightarrow> (a * b) div 10 ^ p
      | Nearest \<Rightarrow> (a * b + 10 ^ p div 2) div 10 ^ p),
     vdiv = (\<lambda>a b r. case r of
        Up \<Rightarrow> (a * 10 ^ p + (b - 1)) div b
      | Down \<Rightarrow> (a * 10 ^ p) div b
      | Nearest \<Rightarrow> (a * 10 ^ p + b div 2) div b) \<rparr>"

text \<open>
  Modelled from the spec: the exact kernel \<^verbatim>\<open>rational\<close>, which is not among the sources.
  Rounding modes are no-ops and \<open>epsilon\<close> is zero.
\<close>

definition rational :: "rat arith" where
  "rational = \<lparr> exact = True, precision = 0, V1 = 1, epsilon = 0,
     vmul = (\<lambda>a b r. a * b), vdiv = (\<lambda>a b r. a / b) \<rparr>"

section \<open>Candidates, ballots and the election state\<close>

datatype status = Withdrawn | Hopeful | Pending | Elected | Defeated

record 'v candidate =
  order :: nat
  cstatus :: status
  vote :: 'v
  kf :: 'v

text \<open>
  A ballot: its multiplier and ranking (candidate ids) are fixed; \<open>weight\<close> and \<open>bresidual\<close>
  are rewritten by every Meek pass; \<open>index\<close> is the cursor the WIGM counter advances.
\<close>

record 'v ballot =
  multiplier :: int
  ranking :: "nat list"
  weight :: 'v
  bresidual :: 'v
  index :: nat

datatype 'v action =
    A_elect nat string
  | A_defeat nat string "'v option"
  | A_pend nat
  | A_transfer string nat "'v option"
  | A_tie string "nat list" nat
  | A_log string 'v

text \<open>
  The election with its current round. Candidate objects are shared between the candidate
  sets and the ballots' rankings, so they live in a store \<open>cands\<close> addressed by candidate
  id; \<open>cids\<close> lists the ids of the catalog.
\<close>

record 'v election =
  cids :: "nat list"
  cands :: "nat \<Rightarrow> 'v candidate"
  ballots :: "'v ballot list"
  nSeats :: nat
  nBallots :: int
  rnum :: nat
  votes :: 'v
  quota :: 'v
  surplus :: 'v
  residual :: 'v
  rlog :: "'v action list"

text \<open>The derived candidate sets are views of the store, in catalog order.\<close>

definition having :: "status \<Rightarrow> 'v election \<Rightarrow> nat list" where
  "having st E = filter (\<lambda>i. cstatus (cands E i) = st) (cids E)"

abbreviation hopeful :: "'v election \<Rightarrow> nat list" where
  "hopeful \<equiv> having Hopeful"

abbreviation elected :: "'v election \<Rightarrow> nat list" where
  "elected \<equiv> having Elected"

abbreviation pending :: "'v election \<Rightarrow> nat list" where
  "pending \<equiv> having Pending"

definition hopefulOrElected :: "'v election \<Rightarrow> nat list" where
  "hopefulOrElected E =
     filter (\<lambda>i. cstatus (cands E i) = Hopeful \<or> cstatus (cands E i) = Elected) (cids E)"

definition nHopeful :: "'v election \<Rightarrow> int" where
  "nHopeful E = int (length (hopeful E))"

definition nElected :: "'v election \<Rightarrow> int" where
  "nElected E = int (length (elected E))"

text \<open>Modelled from the spec: \<^verbatim>\<open>seatsLeftToFill() = S - |elected| - |pending|\<close>.\<close>

definition seatsLeftToFill :: "'v election \<Rightarrow> int" where
  "seatsLeftToFill E = int (nSeats E) - int (length (elected E)) - int (length (pending E))"

text \<open>
  Modelled from the spec: the status transitions of the candidate state, which is not
  among the sources. Each one sets the status and writes a log entry.
\<close>

definition set_status :: "nat \<Rightarrow> status \<Rightarrow> 'v election \<Rightarrow> 'v election" where
  "set_status c st E = E\<lparr>cands := (cands E)(c := (cands E c)\<lparr>cstatus := st\<rparr>)\<rparr>"

definition write_log :: "'v action \<Rightarrow> 'v election \<Rightarrow> 'v election" where
  "write_log a E = E\<lparr>rlog := rlog E @ [a]\<rparr>"

definition elect :: "nat \<Rightarrow> string \<Rightarrow> 'v election \<Rightarrow> 'v election" where
  "elect c msg E = write_log (A_elect c msg) (set_status c Elected E)"

definition defeat :: "nat \<Rightarrow> string \<Rightarrow> 'v option \<Rightarrow> 'v election \<Rightarrow> 'v election" where
  "defeat c msg v E = write_log (A_defeat c msg v) (set_status c Defeated E)"

definition pend :: "nat \<Rightarrow> 'v election \<Rightarrow> 'v election" where
  "pend c E = write_log (A_pend c) (set_status c Pending E)"

text \<open>
  Modelled from the spec: the ordering helpers. \<^verbatim>\<open>sortByOrder\<close> sorts by ballot-file order,
  \<^verbatim>\<open>sortByVote\<close> ascending by vote with ties in ballot-file order (a stable sort by vote of
  the list sorted by order).
\<close>

definition sortByOrder :: "'v election \<Rightarrow> nat list \<Rightarrow> nat list" where
  "sortByOrder E xs = sort_key (\<lambda>i. order (cands E i)) xs"

definition sortByVote :: "('v::linordered_idom) election \<Rightarrow> nat list \<Rightarrow> nat list" where
  "sortByVote E xs = sort_key (\<lambda>i. vote (cands E i)) (sortByOrder E xs)"

section \<open>Batch defeat of sure losers\<close>

text \<open>
  The body of \<^verbatim>\<open>batchDefeat\<close> is the same in both counters. Its first loop builds the
  groups; the loop state is \<^verbatim>\<open>(sortedGroups, group, vote)\<close>.
\<close>

fun group_loop :: "('v::linordered_idom) election \<Rightarrow> 'v \<Rightarrow> nat list
    \<Rightarrow> nat list list \<times> nat list \<times> 'v \<Rightarrow> nat list list \<times> nat list \<times> 'v" where
  "group_loop E sp [] st = st"
| "group_loop E sp (c # cs) (sortedGroups, grp, v) =
     (if v + sp \<ge> vote (cands E c)
      then group_loop E sp cs (sortedGroups, grp @ [c], v)
      else group_loop E sp cs
             ((if grp \<noteq> [] then sortedGroups @ [grp] else sortedGroups), [c], vote (cands E c)))"

definition sorted_groups :: "('v::linordered_idom) election \<Rightarrow> 'v \<Rightarrow> nat list \<Rightarrow> nat list list" where
  "sorted_groups E sp sortedCands =
     (case group_loop E sp sortedCands ([], [], 0) of
        (sortedGroups, grp, v) \<Rightarrow> if grp \<noteq> [] then sortedGroups @ [grp] else sortedGroups)"

text \<open>
  The second loop scans the groups but the last; its state is \<^verbatim>\<open>(vote, maxg, ncand)\<close>, and
  \<^verbatim>\<open>break\<close> returns the state as it stands.
\<close>

fun scan_loop :: "('v::linordered_idom) election \<Rightarrow> 'v \<Rightarrow> nat list list \<Rightarrow> int \<Rightarrow> nat list
    \<Rightarrow> 'v \<times> nat option \<times> nat \<Rightarrow> nat option" where
  "scan_loop E sp sortedGroups maxDefeat [] (v, maxg, ncand) = maxg"
| "scan_loop E sp sortedGroups maxDefeat (g # gs) (v, maxg, ncand) =
     (let grp = sortedGroups ! g;
          ncand' = ncand + length grp
      in if int ncand' > maxDefeat then maxg
         else let v' = v + sum_list (map (\<lambda>c. vote (cands E c)) grp)
              in scan_loop E sp sortedGroups maxDefeat gs
                   (v', (if v' + sp < vote (cands E (hd (sortedGroups ! (g + 1))))
                         then Some g else maxg), ncand'))"

definition batch_of :: "nat list list \<Rightarrow> nat option \<Rightarrow> nat list" where
  "batch_of sortedGroups maxg =
     (case maxg of None \<Rightarrow> [] | Some g \<Rightarrow> concat (take (g + 1) sortedGroups))"

definition batch_scan :: "('v::linordered_idom) election \<Rightarrow> 'v \<Rightarrow> nat list" where
  "batch_scan E sp =
     (let sortedGroups = sorted_groups E sp (sortByVote E (hopeful E));
          maxDefeat = nHopeful E - seatsLeftToFill E
      in batch_of sortedGroups
           (scan_loop E sp sortedGroups maxDefeat [0 ..< length sortedGroups - 1] (0, None, 0)))"

text \<open>
  Meek: \<^verbatim>\<open>batchDefeat(surplus)\<close>, switched off by \<^verbatim>\<open>defeat_batch=none\<close>. The rule's
  class attributes are a record: the variant, whether \<^verbatim>\<open>defeat_batch\<close> is \<^verbatim>\<open>safe\<close>, and
  the \<^verbatim>\<open>omega\<close> option.
\<close>

record rule =
  warren :: bool
  defeatBatch :: bool
  omega :: "nat option"

definition batchDefeat :: "rule \<Rightarrow> ('v::linordered_idom) election \<Rightarrow> 'v \<Rightarrow> nat list" where
  "batchDefeat cfg E sp = (if \<not> defeatBatch cfg then [] else batch_scan E sp)"

text \<open>
  WIGM: \<^verbatim>\<open>batchDefeat()\<close>, which first adds up the untransferred surplus of the pending
  candidates.
\<close>

definition wigm_batchDefeat :: "('v::linordered_idom) election \<Rightarrow> nat list" where
  "wigm_batchDefeat E =
     (let sp = sum_list (map (\<lambda>c. vote (cands E c) - quota E) (pending E))
      in batch_scan E sp)"


section \<open>The Meek/Warren counter\<close>

datatype error = ZeroDivisionError | ValueError | AttributeError | TypeError

definition hasQuota :: "('v::linordered_idom) arith \<Rightarrow> 'v election \<Rightarrow> nat \<Rightarrow> bool" where
  "hasQuota A E c =
     (if exact A then vote (cands E c) > quota E else vote (cands E c) \<ge> quota E)"

definition calcQuota :: "('v::linordered_idom) arith \<Rightarrow> 'v election \<Rightarrow> 'v" where
  "calcQuota A E =
     (if exact A then vdiv A (votes E) (V A (int (nSeats E) + 1)) Down
      else vdiv A (votes E) (V A (int (nSeats E) + 1)) Down + epsilon A)"

definition countComplete :: "'v election \<Rightarrow> bool" where
  "countComplete E \<longleftrightarrow> nHopeful E \<le> seatsLeftToFill E \<or> seatsLeftToFill E \<le> 0"

definition breakTie :: "'v election \<Rightarrow> nat list \<Rightarrow> string \<Rightarrow> nat option \<times> 'v election" where
  "breakTie E tied purpose =
     (if tied = [] then (None, E)
      else if length tied = 1 then (Some (tied ! 0), E)
      else let tied' = sortByOrder E tied; t = tied' ! 0
           in (Some t, write_log (A_tie purpose tied' t) E))"

text \<open>
  The distribution of one ballot over its ranking; the loop state is the candidate store
  with \<^verbatim>\<open>b.weight\<close> and \<^verbatim>\<open>b.residual\<close>. The first function is the Meek branch (the
  rule marked OpenSTV, the only one enabled), the second the Warren branch.
\<close>

fun meek_ranking :: "('v::linordered_idom) arith \<Rightarrow> int \<Rightarrow> nat list
    \<Rightarrow> (nat \<Rightarrow> 'v candidate) \<times> 'v \<times> 'v \<Rightarrow> (nat \<Rightarrow> 'v candidate) \<times> 'v \<times> 'v" where
  "meek_ranking A m [] st = st"
| "meek_ranking A m (c # cs) (cd, w, r) =
     (let kv = vmul A (w * of_int m) (kf (cd c)) Down;
          cd' = cd(c := (cd c)\<lparr>vote := vote (cd c) + kv\<rparr>);
          w' = vmul A w (V1 A - kf (cd c)) Down;
          r' = r - kv
      in if w' \<le> 0 then (cd', w', r') else meek_ranking A m cs (cd', w', r'))"

fun warren_ranking :: "('v::linordered_idom) arith \<Rightarrow> int \<Rightarrow> nat list
    \<Rightarrow> (nat \<Rightarrow> 'v candidate) \<times> 'v \<times> 'v \<Rightarrow> (nat \<Rightarrow> 'v candidate) \<times> 'v \<times> 'v" where
  "warren_ranking A m [] st = st"
| "warren_ranking A m (c # cs) (cd, w, r) =
     (let keep = (if kf (cd c) < r then kf (cd c) else r);
          w' = w - keep;
          cd' = cd(c := (cd c)\<lparr>vote := vote (cd c) + keep * of_int m\<rparr>);
          r' = r - keep * of_int m
      in if w' \<le> 0 then (cd', w', r') else warren_ranking A m cs (cd', w', r'))"

text \<open>The loop over the ballots; its state is the store, \<^verbatim>\<open>R.residual\<close> and the ballots done.\<close>

fun distribute :: "('v::linordered_idom) arith \<Rightarrow> rule \<Rightarrow> 'v ballot list
    \<Rightarrow> (nat \<Rightarrow> 'v candidate) \<times> 'v \<times> 'v ballot list
    \<Rightarrow> (nat \<Rightarrow> 'v candidate) \<times> 'v \<times> 'v ballot list" where
  "distribute A rl [] st = st"
| "distribute A rl (b # bs) (cd, res, done) =
     (case (if warren rl then warren_ranking A (multiplier b) (ranking b)
                                (cd, V1 A, V A (multiplier b))
            else meek_ranking A (multiplier b) (ranking b) (cd, V1 A, V A (multiplier b))) of
        (cd', w, r) \<Rightarrow>
          distribute A rl bs (cd', res + r, done @ [b\<lparr>weight := w, bresidual := r\<rparr>]))"

definition reset_votes :: "('v::linordered_idom) election \<Rightarrow> 'v election" where
  "reset_votes E =
     E\<lparr>cands := fold (\<lambda>c cd. cd(c := (cd c)\<lparr>vote := 0\<rparr>)) (hopefulOrElected E) (cands E)\<rparr>"

text \<open>
  One pass up to D.3: reset and distribute the votes, add them up, update the quota.
\<close>

definition tally :: "('v::linordered_idom) arith \<Rightarrow> rule \<Rightarrow> 'v election \<Rightarrow> 'v election" where
  "tally A rl E =
     (let E1 = (reset_votes E)\<lparr>residual := 0\<rparr>;
          E2 = (case distribute A rl (ballots E1) (cands E1, residual E1, []) of
                  (cd, res, bs) \<Rightarrow> E1\<lparr>cands := cd, residual := res, ballots := bs\<rparr>);
          E3 = E2\<lparr>votes := sum_list (map (\<lambda>c. vote (cands E2 c)) (hopefulOrElected E2))\<rparr>
      in E3\<lparr>quota := calcQuota A E3\<rparr>)"

datatype istatus = IS_none | IS_omega | IS_batch | IS_elected | IS_stable

text \<open>D.4 and D.6: elect the winners, recording \<^verbatim>\<open>IS_elected\<close>, and sum the surplus.\<close>

definition find_winners :: "('v::linordered_idom) arith \<Rightarrow> istatus \<times> 'v election
    \<Rightarrow> istatus \<times> 'v election" where
  "find_winners A st =
     fold (\<lambda>c (iStatus, E). (IS_elected, elect c ''Elect'' E))
       (filter (hasQuota A (snd st)) (hopeful (snd st))) st"

definition calc_surplus :: "('v::linordered_idom) election \<Rightarrow> 'v election" where
  "calc_surplus E =
     E\<lparr>surplus := sum_list (map (\<lambda>c. vote (cands E c) - quota E) (elected E))\<rparr>"

definition iterate_pass :: "('v::linordered_idom) arith \<Rightarrow> rule \<Rightarrow> istatus \<times> 'v election
    \<Rightarrow> istatus \<times> 'v election" where
  "iterate_pass A rl st =
     (case find_winners A (fst st, tally A rl (snd st)) of
        (iStatus, E) \<Rightarrow> (iStatus, calc_surplus E))"

text \<open>D.8: the update of the keep factors. A zero vote makes the division raise.\<close>

fun update_kf :: "('v::linordered_idom) arith \<Rightarrow> nat list \<Rightarrow> 'v election \<Rightarrow> error + 'v election" where
  "update_kf A [] E = Inr E"
| "update_kf A (c # cs) E =
     (if vote (cands E c) = 0 then Inl ZeroDivisionError
      else update_kf A cs
             (E\<lparr>cands := (cands E)(c := (cands E c)
                \<lparr>kf := vdiv A (vmul A (kf (cands E c)) (quota E) Up) (vote (cands E c)) Up\<rparr>)\<rparr>))"

text \<open>
  The loop of \<^verbatim>\<open>iterate\<close>, with \<^verbatim>\<open>iStatus\<close> and \<^verbatim>\<open>lastsurplus\<close> as loop variables. It need not
  return, so it is a partial function: \<open>None\<close> stands for a loop that runs forever.
\<close>

partial_function (option) iterate_loop :: "('v::linordered_idom) arith \<Rightarrow> rule \<Rightarrow> 'v
    \<Rightarrow> istatus \<Rightarrow> 'v \<Rightarrow> 'v election
    \<Rightarrow> (error + istatus \<times> nat list option \<times> 'v election) option" where
  "iterate_loop A rl om iStatus lastsurplus E =
     (let st = iterate_pass A rl (iStatus, E); R = snd st
      in if fst st = IS_elected then Some (Inr (IS_elected, None, R))
         else if surplus R \<le> om then Some (Inr (IS_omega, None, R))
         else if surplus R \<ge> lastsurplus
           then Some (Inr (IS_stable, None,
                  write_log (A_log ''Stable state detected'' (surplus R)) R))
         else let batch = batchDefeat rl R (surplus R)
              in if batch \<noteq> [] then Some (Inr (IS_batch, Some batch, R))
                 else (case update_kf A (elected R) R of
                         Inl e \<Rightarrow> Some (Inl e)
                       | Inr R' \<Rightarrow> iterate_loop A rl om (fst st) (surplus R) R'))"

declare iterate_loop.simps [code]

definition iterate :: "('v::linordered_idom) arith \<Rightarrow> rule \<Rightarrow> 'v \<Rightarrow> 'v election
    \<Rightarrow> (error + istatus \<times> nat list option \<times> 'v election) option" where
  "iterate A rl om E = iterate_loop A rl om IS_none (V A (nBallots E)) E"

text \<open>
  The initialisation of the count. \<^verbatim>\<open>_omega\<close> is \<^verbatim>\<open>V(1) / V(10**omega)\<close>, where an \<^verbatim>\<open>omega\<close>
  that is not given (or zero) defaults to 10 for the exact kernel and to two thirds of the
  precision otherwise.
\<close>

definition omega_digits :: "'v arith \<Rightarrow> rule \<Rightarrow> nat" where
  "omega_digits A rl =
     (let dflt = (if exact A then 10 else precision A * 2 div 3)
      in case omega rl of None \<Rightarrow> dflt | Some k \<Rightarrow> if k \<noteq> 0 then k else dflt)"

definition omega_value :: "('v::linordered_idom) arith \<Rightarrow> rule \<Rightarrow> 'v" where
  "omega_value A rl = vdiv A (V A 1) (V A (10 ^ omega_digits A rl)) Down"

text \<open>
  Modelled from the spec: \<^verbatim>\<open>topCand\<close>, the first candidate of the ranking that is not
  withdrawn.
\<close>

definition topCand :: "'v election \<Rightarrow> 'v ballot \<Rightarrow> nat option" where
  "topCand E b = find (\<lambda>c. cstatus (cands E c) \<noteq> Withdrawn) (ranking b)"

definition meek_init :: "('v::linordered_idom) arith \<Rightarrow> 'v election \<Rightarrow> 'v election" where
  "meek_init A E =
     (let R0 = E\<lparr>votes := V A (nBallots E)\<rparr>;
          R1 = R0\<lparr>quota := calcQuota A R0\<rparr>;
          R2 = R1\<lparr>cands := fold (\<lambda>c cd. cd(c := (cd c)\<lparr>kf := 0\<rparr>))
                          (having Withdrawn R1) (cands R1)\<rparr>;
          R3 = R2\<lparr>cands := fold (\<lambda>c cd. cd(c := (cd c)\<lparr>kf := V1 A, vote := 0\<rparr>))
                          (hopeful R2) (cands R2)\<rparr>
      in R3\<lparr>cands := fold (\<lambda>b cd. case topCand R3 b of
                                      None \<Rightarrow> cd
                                    | Some c \<Rightarrow> cd(c := (cd c)
                                        \<lparr>vote := vote (cd c) + V A (multiplier b)\<rparr>))
                       (ballots R3) (cands R3)\<rparr>)"

text \<open>
  Modelled from the spec: \<^verbatim>\<open>newRound\<close> clones the state into a new round, increments the
  round number and resets the log.
\<close>

definition newRound :: "'v election \<Rightarrow> 'v election" where
  "newRound E = E\<lparr>rnum := rnum E + 1, rlog := []\<rparr>"

text \<open>The body of the round loop, after the iteration: the defeats.\<close>

definition zero_cand :: "nat \<Rightarrow> ('v::linordered_idom) election \<Rightarrow> 'v election" where
  "zero_cand c E = E\<lparr>cands := (cands E)(c := (cands E c)\<lparr>vote := 0, kf := 0\<rparr>)\<rparr>"

definition defeat_batch :: "nat list \<Rightarrow> ('v::linordered_idom) election \<Rightarrow> 'v election" where
  "defeat_batch batch E =
     fold (\<lambda>c C. zero_cand c (defeat c ''Defeat certain loser'' None C)) batch E"

definition vmin :: "('v::linordered_idom) list \<Rightarrow> error + 'v" where
  "vmin xs = (case xs of [] \<Rightarrow> Inl ValueError | x # ys \<Rightarrow> Inr (fold min ys x))"

definition low_candidates :: "('v::linordered_idom) election \<Rightarrow> 'v \<Rightarrow> nat list" where
  "low_candidates E low_vote =
     filter (\<lambda>c. low_vote + surplus E \<ge> vote (cands E c)) (hopeful E)"

definition defeat_low :: "istatus \<Rightarrow> ('v::linordered_idom) election \<Rightarrow> error + 'v election" where
  "defeat_low iterationStatus E =
     (case vmin (map (\<lambda>c. vote (cands E c)) (hopeful E)) of
        Inl e \<Rightarrow> Inl e
      | Inr low_vote \<Rightarrow>
          if low_candidates E low_vote \<noteq> [] then
            (case breakTie E (low_candidates E low_vote) ''defeat'' of
               (None, E') \<Rightarrow> Inl AttributeError
             | (Some low_candidate, E') \<Rightarrow>
                 Inr (zero_cand low_candidate
                   (defeat low_candidate
                      (if iterationStatus = IS_omega then ''Defeat (surplus < omega)''
                       else ''Defeat (stable surplus)'')
                      (Some (surplus E')) E')))
          else Inr E)"

definition meek_round :: "('v::linordered_idom) arith \<Rightarrow> rule \<Rightarrow> 'v \<Rightarrow> 'v election
    \<Rightarrow> (error + 'v election) option" where
  "meek_round A rl om E =
     (case iterate A rl om (newRound E) of
        None \<Rightarrow> None
      | Some (Inl e) \<Rightarrow> Some (Inl e)
      | Some (Inr (iterationStatus, batch, R)) \<Rightarrow>
          if iterationStatus = IS_elected then Some (Inr R)
          else if iterationStatus = IS_batch then
            (case batch of None \<Rightarrow> Some (Inl TypeError)
                         | Some cs \<Rightarrow> Some (Inr (defeat_batch cs R)))
          else Some (defeat_low iterationStatus R))"

partial_function (option) meek_loop :: "('v::linordered_idom) arith \<Rightarrow> rule \<Rightarrow> 'v
    \<Rightarrow> 'v election \<Rightarrow> (error + 'v election) option" where
  "meek_loop A rl om E =
     (if countComplete E then Some (Inr E)
      else (case meek_round A rl om E of
              None \<Rightarrow> None
            | Some (Inl e) \<Rightarrow> Some (Inl e)
            | Some (Inr E') \<Rightarrow> meek_loop A rl om E'))"

declare meek_loop.simps [code]

text \<open>Elect or defeat the remaining hopeful candidates.\<close>

definition meek_finish :: "('v::linordered_idom) election \<Rightarrow> 'v election" where
  "meek_finish E =
     fold (\<lambda>c C. if nElected C < int (nSeats C) then elect c ''Elect remaining'' C
                  else zero_cand c (defeat c ''Defeat remaining'' None C))
       (hopeful E) E"

definition meek_count :: "('v::linordered_idom) arith \<Rightarrow> rule \<Rightarrow> 'v election
    \<Rightarrow> (error + 'v election) option" where
  "meek_count A rl E =
     (case meek_loop A rl (omega_value A rl) (meek_init A E) of
        None \<Rightarrow> None
      | Some (Inl e) \<Rightarrow> Some (Inl e)
      | Some (Inr E') \<Rightarrow> Some (Inr (meek_finish E')))"

section \<open>The states a count goes through\<close>

text \<open>
  The states at the head of the loop of \<^verbatim>\<open>iterate\<close>, started on \<open>E\<close>: the first one, and
  the one after every pass that does not return.
\<close>

inductive_set iterate_passes :: "('v::linordered_idom) arith \<Rightarrow> rule \<Rightarrow> 'v \<Rightarrow> 'v election
    \<Rightarrow> (istatus \<times> 'v \<times> 'v election) set"
  for A :: "('v::linordered_idom) arith" and rl :: rule and om :: 'v and E :: "'v election" where
  first_pass: "(IS_none, V A (nBallots E), E) \<in> iterate_passes A rl om E"
| next_pass: "(iStatus, lastsurplus, R0) \<in> iterate_passes A rl om E \<Longrightarrow>
     st = iterate_pass A rl (iStatus, R0) \<Longrightarrow> R = snd st \<Longrightarrow>
     fst st \<noteq> IS_elected \<Longrightarrow> \<not> surplus R \<le> om \<Longrightarrow> \<not> lastsurplus \<le> surplus R \<Longrightarrow>
     batchDefeat rl R (surplus R) = [] \<Longrightarrow> update_kf A (elected R) R = Inr R' \<Longrightarrow>
     (fst st, surplus R, R') \<in> iterate_passes A rl om E"

text \<open>
  The rounds of a count of the election \<open>E0\<close>: round 0 as the initialisation leaves it, and
  the state at the end of every round the loop runs.
\<close>

inductive_set meek_rounds :: "('v::linordered_idom) arith \<Rightarrow> rule \<Rightarrow> 'v election
    \<Rightarrow> 'v election set"
  for A :: "('v::linordered_idom) arith" and rl :: rule and E0 :: "'v election" where
  round0: "meek_init A E0 \<in> meek_rounds A rl E0"
| next_round: "E \<in> meek_rounds A rl E0 \<Longrightarrow> \<not> countComplete E \<Longrightarrow>
     meek_round A rl (omega_value A rl) E = Some (Inr E') \<Longrightarrow> E' \<in> meek_rounds A rl E0"

text \<open>A property of the state that every operation of the counter preserves.\<close>

definition preserved :: "('v::linordered_idom) arith \<Rightarrow> rule \<Rightarrow> ('v election \<Rightarrow> bool) \<Rightarrow> bool" where
  "preserved A rl I \<longleftrightarrow>
     (\<forall>E. I E \<longrightarrow>
        I (newRound E) \<and> I (tally A rl E) \<and> I (calc_surplus E) \<and>
        (\<forall>c m. I (elect c m E)) \<and> (\<forall>a. I (write_log a E)) \<and>
        (\<forall>c m v. I (zero_cand c (defeat c m v E))) \<and>
        (\<forall>E'. update_kf A (elected E) E = Inr E' \<longrightarrow> I E'))"

text \<open>Two candidate stores that differ in the votes at most.\<close>

definition same_cands :: "(nat \<Rightarrow> 'v candidate) \<Rightarrow> (nat \<Rightarrow> 'v candidate) \<Rightarrow> bool" where
  "same_cands cd cd' \<longleftrightarrow>
     (\<forall>x. kf (cd' x) = kf (cd x) \<and> cstatus (cd' x) = cstatus (cd x) \<and> order (cd' x) = order (cd x))"

text \<open>The quota of the state is the one \<^verbatim>\<open>calcQuota\<close> gives for its votes.\<close>

definition quota_inv :: "('v::linordered_idom) arith \<Rightarrow> nat \<Rightarrow> 'v election \<Rightarrow> bool" where
  "quota_inv A S E \<longleftrightarrow> nSeats E = S \<and> quota E = calcQuota A E"

text \<open>Every hopeful candidate of the catalog keeps all it gets.\<close>

definition hopeful_inv :: "('v::linordered_idom) arith \<Rightarrow> 'v election \<Rightarrow> bool" where
  "hopeful_inv A E \<longleftrightarrow>
     (\<forall>c \<in> set (cids E). cstatus (cands E c) = Hopeful \<longrightarrow> kf (cands E c) = V1 A)"

section \<open>Well-formed elections and what a count keeps of them\<close>

text \<open>
  The input of a count, as the profile hands it over: the candidate ids are distinct, every
  candidate is hopeful or withdrawn, every ranked candidate is in the catalog, and the
  number of ballots is the sum of the multipliers.
\<close>

definition well_formed :: "'v election \<Rightarrow> bool" where
  "well_formed E \<longleftrightarrow>
     distinct (cids E) \<and>
     (\<forall>c \<in> set (cids E). cstatus (cands E c) = Hopeful \<or> cstatus (cands E c) = Withdrawn) \<and>
     (\<forall>b \<in> set (ballots E). set (ranking b) \<subseteq> set (cids E)) \<and>
     nBallots E = sum_list (map multiplier (ballots E))"

text \<open>
  The profile does not change during a count, and a candidate of the catalog that is neither
  hopeful nor elected keeps nothing.
\<close>

definition meek_inv :: "('v::linordered_idom) election \<Rightarrow> 'v election \<Rightarrow> bool" where
  "meek_inv E0 E \<longleftrightarrow>
     cids E = cids E0 \<and> nBallots E = nBallots E0 \<and> nSeats E = nSeats E0 \<and>
     map multiplier (ballots E) = map multiplier (ballots E0) \<and>
     map ranking (ballots E) = map ranking (ballots E0) \<and>
     (\<forall>c \<in> set (cids E). cstatus (cands E c) = Hopeful \<or> cstatus (cands E c) = Elected \<or>
        kf (cands E c) = 0)"

text \<open>The sum of the votes of a list of candidates.\<close>

definition livesum :: "nat list \<Rightarrow> (nat \<Rightarrow> ('v::linordered_idom) candidate) \<Rightarrow> 'v" where
  "livesum L cd = sum_list (map (\<lambda>c. vote (cd c)) L)"

section \<open>Sample elections\<close>

text \<open>
  An election as it stands before a count: every candidate hopeful or withdrawn, in
  ballot-file order, and the ballots with their multipliers.
\<close>

definition election_of :: "nat \<Rightarrow> nat list \<Rightarrow> nat list \<Rightarrow> (int \<times> nat list) list
    \<Rightarrow> ('v::linordered_idom) election" where
  "election_of S cs wd bl =
     \<lparr> cids = cs,
       cands = (\<lambda>i. \<lparr>order = i, cstatus = (if i \<in> set wd then Withdrawn else Hopeful),
                       vote = 0, kf = 0\<rparr>),
       ballots = map (\<lambda>(m, rk). \<lparr>multiplier = m, ranking = rk, weight = 0, bresidual = 0,
                                   index = 0\<rparr>) bl,
       nSeats = S, nBallots = sum_list (map fst bl), rnum = 0,
       votes = 0, quota = 0, surplus = 0, residual = 0, rlog = [] \<rparr>"

text \<open>The profile of the repository's unit test: two seats, three candidates.\<close>

definition castor_pollux :: "('v::linordered_idom) election" where
  "castor_pollux = election_of 2 [1, 2, 3] [] [(4, [1, 2]), (2, [3])]"

definition meek_safe :: rule where
  "meek_safe = \<lparr>warren = False, defeatBatch = True, omega = None\<rparr>"

text \<open>
  Two seats, three candidates, three ballots for the first: the first round elects it, and
  the second round starts from \<open>one_winner_round2\<close> (fixed point, one digit).
\<close>

definition one_winner :: "('v::linordered_idom) election" where
  "one_winner = election_of 2 [1, 2, 3] [] [(3, [1])]"

definition one_winner_round1 :: "int election" where
  "one_winner_round1 =
     snd (iterate_pass (fixed 1) meek_safe (IS_none, newRound (meek_init (fixed 1) one_winner)))"

definition one_winner_round2 :: "int election" where
  "one_winner_round2 = newRound one_winner_round1"

text \<open>
  Five seats, seven candidates and the single ballot 7, 6, 1, counted by Meek's rule in
  fixed point with one digit and \<^verbatim>\<open>omega=2\<close> (so that \<^verbatim>\<open>_omega\<close> is zero). The first four
  rounds elect 7, 6 and 1 and defeat 2; \<open>seven_round5\<close> is the state in which the fifth
  round starts: candidate 1 is elected with keep factor 0.7 and will get no vote.
\<close>

definition seven_candidates :: "('v::linordered_idom) election" where
  "seven_candidates = election_of 5 [1, 2, 3, 4, 5, 6, 7] [] [(1, [7, 6, 1])]"

definition meek_omega2 :: rule where
  "meek_omega2 = \<lparr>warren = False, defeatBatch = True, omega = Some 2\<rparr>"

definition seven_round5 :: "int election" where
  "seven_round5 =
     \<lparr> cids = [1, 2, 3, 4, 5, 6, 7],
       cands = (\<lambda>i. \<lparr>order = i,
                       cstatus = (if i \<in> {1, 6, 7} then Elected
                                  else if i = 2 then Defeated else Hopeful),
                       vote = (if i = 6 then 8 else if i = 7 then 2 else 0),
                       kf = (if i = 1 then 7 else if i = 2 then 0 else if i = 7 then 2 else 10)\<rparr>),
       ballots = [\<lparr>multiplier = 1, ranking = [7, 6, 1], weight = 0, bresidual = 0, index = 0\<rparr>],
       nSeats = 5, nBallots = 1, rnum = 5,
       votes = 10, quota = 2, surplus = 4, residual = 0, rlog = [] \<rparr>"

section \<open>The two kernels\<close>

lemma fixed_simps [simp]:
  "exact (fixed p) = False" "precision (fixed p) = p" "V1 (fixed p) = 10 ^ p"
  "epsilon (fixed p) = 1"
  "vmul (fixed p) a b Up = (a * b + (10 ^ p - 1)) div 10 ^ p"
  "vmul (fixed p) a b Down = (a * b) div 10 ^ p"
  "vdiv (fixed p) a b Up = (a * 10 ^ p + (b - 1)) div b"
  "vdiv (fixed p) a b Down = (a * 10 ^ p) div b"
  by (simp_all add: fixed_def)

lemma rational_simps [simp]:
  "exact rational = True" "V1 rational = 1" "epsilon rational = 0"
  "vmul rational a b r = a * b" "vdiv rational a b r = a / b"
  by (simp_all add: rational_def)

section \<open>Properties kept by every operation\<close>

lemma find_winners_fold:
  "fold (\<lambda>c (iStatus, E). (IS_elected, elect c m E)) ws (i0, E0) =
     ((if ws = [] then i0 else IS_elected), fold (\<lambda>c. elect c m) ws E0)"
  by (induction ws arbitrary: i0 E0) auto

lemma preserved_fold_elect:
  "preserved A rl I \<Longrightarrow> I E \<Longrightarrow> I (fold (\<lambda>c. elect c m) ws E)"
  by (induction ws arbitrary: E) (auto simp: preserved_def)

lemma preserved_pass:
  assumes "preserved A rl I" "I E"
  shows "I (snd (iterate_pass A rl (i, E)))"
proof -
  have "I (tally A rl E)" using assms by (simp add: preserved_def)
  then have "I (fold (\<lambda>c. elect c ''Elect'') (filter (hasQuota A (tally A rl E)) (hopeful (tally A rl E))) (tally A rl E))"
    using assms(1) by (rule preserved_fold_elect [rotated])
  then show ?thesis
    using assms(1) by (simp add: iterate_pass_def find_winners_def find_winners_fold preserved_def)
qed

lemma preserved_iterate_loop_aux:
  fixes E :: "('v::linordered_idom) election"
  assumes run: "iterate_loop A rl om i ls E = Some y"
  shows "preserved A rl I \<longrightarrow> I E \<longrightarrow> (case y of Inl e \<Rightarrow> True | Inr (s, b, R) \<Rightarrow> I R)"
proof (rule iterate_loop.raw_induct
    [where P = "\<lambda>A rl om i ls E y. preserved A rl I \<longrightarrow> I E \<longrightarrow>
                  (case y of Inl e \<Rightarrow> True | Inr (s, b, R) \<Rightarrow> I R)", OF _ run])
  fix f :: "'v arith \<Rightarrow> rule \<Rightarrow> 'v \<Rightarrow> istatus \<Rightarrow> 'v \<Rightarrow> 'v election
      \<Rightarrow> (error + istatus \<times> nat list option \<times> 'v election) option"
    and A rl om iStatus lastsurplus E y
  assume IH: "\<And>A rl om iStatus lastsurplus E y. f A rl om iStatus lastsurplus E = Some y \<Longrightarrow>
      preserved A rl I \<longrightarrow> I E \<longrightarrow> (case y of Inl e \<Rightarrow> True | Inr (s, b, R) \<Rightarrow> I R)"
  assume eq: "(let st = iterate_pass A rl (iStatus, E); R = snd st
      in if fst st = IS_elected then Some (Inr (IS_elected, None, R))
         else if surplus R \<le> om then Some (Inr (IS_omega, None, R))
         else if surplus R \<ge> lastsurplus
           then Some (Inr (IS_stable, None,
                  write_log (A_log ''Stable state detected'' (surplus R)) R))
         else let batch = batchDefeat rl R (surplus R)
              in if batch \<noteq> [] then Some (Inr (IS_batch, Some batch, R))
                 else (case update_kf A (elected R) R of
                         Inl e \<Rightarrow> Some (Inl e)
                       | Inr R' \<Rightarrow> f A rl om (fst st) (surplus R) R')) = Some y"
  show "preserved A rl I \<longrightarrow> I E \<longrightarrow> (case y of Inl e \<Rightarrow> True | Inr (s, b, R) \<Rightarrow> I R)"
  proof (intro impI)
    assume pres: "preserved A rl I" and IE: "I E"
    let ?R = "snd (iterate_pass A rl (iStatus, E))"
    have IR: "I ?R" using pres IE by (simp add: preserved_pass)
    have IL: "\<And>a. I (write_log a ?R)" using IR pres by (simp add: preserved_def)
    have IK: "\<And>R'. update_kf A (elected ?R) ?R = Inr R' \<Longrightarrow> I R'"
      using IR pres by (simp add: preserved_def)
    show "case y of Inl e \<Rightarrow> True | Inr (s, b, R) \<Rightarrow> I R"
      using eq IR IL pres
      by (auto simp: Let_def split: if_splits sum.splits dest!: IK dest: IH)
  qed
qed

lemma preserved_iterate_loop:
  "iterate_loop A rl om i ls E = Some (Inr (s, b, R)) \<Longrightarrow> preserved A rl I \<Longrightarrow> I E \<Longrightarrow> I R"
  using preserved_iterate_loop_aux [of A rl om i ls E "Inr (s, b, R)" I] by simp

subsection \<open>What a pass leaves alone\<close>

lemma same_cands_refl [simp]: "same_cands cd cd"
  by (simp add: same_cands_def)

lemma same_cands_trans: "same_cands a b \<Longrightarrow> same_cands b c \<Longrightarrow> same_cands a c"
  by (simp add: same_cands_def)

lemma same_cands_vote [simp]: "same_cands cd (cd(c := (cd c)\<lparr>vote := v\<rparr>))"
  by (simp add: same_cands_def)

lemma same_cands_meek_ranking: "same_cands cd (fst (meek_ranking A m cs (cd, w, r)))"
  by (induction cs arbitrary: cd w r) (simp_all add: same_cands_def Let_def)

lemma same_cands_warren_ranking: "same_cands cd (fst (warren_ranking A m cs (cd, w, r)))"
  by (induction cs arbitrary: cd w r) (simp_all add: same_cands_def Let_def)

lemma same_cands_distribute: "same_cands cd (fst (distribute A rl bs (cd, res, dn)))"
proof (induction bs arbitrary: cd res dn)
  case Nil
  then show ?case by simp
next
  case (Cons b bs)
  have m: "same_cands cd (fst (meek_ranking A (multiplier b) (ranking b) (cd, V1 A, V A (multiplier b))))"
    by (rule same_cands_meek_ranking)
  have w: "same_cands cd (fst (warren_ranking A (multiplier b) (ranking b) (cd, V1 A, V A (multiplier b))))"
    by (rule same_cands_warren_ranking)
  show ?case
    using m w Cons.IH by (auto split: prod.splits elim: same_cands_trans)
qed

lemma same_cands_reset: "same_cands cd (fold (\<lambda>c cd. cd(c := (cd c)\<lparr>vote := 0\<rparr>)) cs cd)"
  by (induction cs arbitrary: cd) (simp_all add: same_cands_def Let_def)

lemma same_cands_tally: "same_cands (cands E) (cands (tally A rl E))"
proof -
  let ?cd1 = "fold (\<lambda>c cd. cd(c := (cd c)\<lparr>vote := 0\<rparr>)) (hopefulOrElected E) (cands E)"
  have 1: "same_cands (cands E) ?cd1" by (rule same_cands_reset)
  have 2: "same_cands ?cd1 (fst (distribute A rl (ballots E) (?cd1, 0, [])))"
    by (rule same_cands_distribute)
  have "cands (tally A rl E) = fst (distribute A rl (ballots E) (?cd1, 0, []))"
    by (simp add: tally_def Let_def reset_votes_def split: prod.splits)
  then show ?thesis using same_cands_trans [OF 1 2] by simp
qed

lemma kf_tally [simp]: "kf (cands (tally A rl E) c) = kf (cands E c)"
  using same_cands_tally [of E A rl] by (simp add: same_cands_def)

lemma cstatus_tally [simp]: "cstatus (cands (tally A rl E) c) = cstatus (cands E c)"
  using same_cands_tally [of E A rl] by (simp add: same_cands_def)

lemma order_tally [simp]: "order (cands (tally A rl E) c) = order (cands E c)"
  using same_cands_tally [of E A rl] by (simp add: same_cands_def)

lemma cids_tally [simp]: "cids (tally A rl E) = cids E"
  by (simp add: tally_def Let_def reset_votes_def split: prod.splits)

lemma nSeats_tally [simp]: "nSeats (tally A rl E) = nSeats E"
  by (simp add: tally_def Let_def reset_votes_def split: prod.splits)

lemma nBallots_tally [simp]: "nBallots (tally A rl E) = nBallots E"
  by (simp add: tally_def Let_def reset_votes_def split: prod.splits)

lemma having_tally [simp]: "having st (tally A rl E) = having st E"
  by (simp add: having_def)

lemma hopefulOrElected_tally [simp]: "hopefulOrElected (tally A rl E) = hopefulOrElected E"
  by (simp add: hopefulOrElected_def)

subsection \<open>Rounds\<close>

lemma preserved_defeat_batch:
  "preserved A rl I \<Longrightarrow> I E \<Longrightarrow> I (defeat_batch cs E)"
  unfolding defeat_batch_def
  by (induction cs arbitrary: E) (auto simp: preserved_def)

lemma preserved_breakTie:
  "preserved A rl I \<Longrightarrow> I E \<Longrightarrow> I (snd (breakTie E tied p))"
  by (simp add: breakTie_def Let_def preserved_def)

lemma preserved_defeat_low:
  assumes "preserved A rl I" "I E" "defeat_low s E = Inr E'"
  shows "I E'"
proof -
  have "I (zero_cand c (defeat c m v (snd (breakTie E tied p))))" for c m v tied p
    using preserved_breakTie [OF assms(1,2)] assms(1) by (simp add: preserved_def)
  then show ?thesis
    using assms(2,3)
    by (auto simp: defeat_low_def split: sum.splits if_splits prod.splits option.splits)
       (metis snd_conv)+
qed

lemma preserved_meek_round:
  assumes "preserved A rl I" "I E" "meek_round A rl om E = Some (Inr E')"
  shows "I E'"
proof -
  have n: "I (newRound E)" using assms(1,2) by (simp add: preserved_def)
  show ?thesis
    using assms(3) preserved_iterate_loop [OF _ assms(1) n]
      preserved_defeat_batch [OF assms(1)] preserved_defeat_low [OF assms(1)]
    by (fastforce simp: meek_round_def iterate_def split: option.splits sum.splits if_splits)
qed

lemma preserved_meek_rounds:
  "E \<in> meek_rounds A rl E0 \<Longrightarrow> preserved A rl I \<Longrightarrow> I (meek_init A E0) \<Longrightarrow> I E"
  by (induction rule: meek_rounds.induct) (auto intro: preserved_meek_round)

lemma preserved_passes:
  "(i, ls, R) \<in> iterate_passes A rl om E \<Longrightarrow> preserved A rl I \<Longrightarrow> I E \<Longrightarrow> I R"
proof (induction i ls R rule: iterate_passes.induct)
  case first_pass
  then show ?case by simp
next
  case (next_pass iStatus lastsurplus R0 st R R')
  have "I (snd (iterate_pass A rl (iStatus, R0)))"
    using next_pass by (simp add: preserved_pass)
  then show ?case using next_pass by (simp add: preserved_def)
qed

lemma preserved_meek_finish:
  "preserved A rl I \<Longrightarrow> I E \<Longrightarrow> I (meek_finish E)"
proof -
  have "preserved A rl I \<Longrightarrow> I E \<Longrightarrow>
    I (fold (\<lambda>c C. if nElected C < int (nSeats C) then elect c ''Elect remaining'' C
                  else zero_cand c (defeat c ''Defeat remaining'' None C)) cs E)" for cs
    by (induction cs arbitrary: E) (auto simp: preserved_def)
  then show "preserved A rl I \<Longrightarrow> I E \<Longrightarrow> I (meek_finish E)"
    by (simp add: meek_finish_def)
qed

section \<open>Quota\<close>

lemma update_kf_frame:
  "update_kf A cs E = Inr E' \<Longrightarrow>
   (\<exists>cd. E' = E\<lparr>cands := cd\<rparr> \<and>
      (\<forall>x. cstatus (cd x) = cstatus (cands E x) \<and> vote (cd x) = vote (cands E x) \<and>
           order (cd x) = order (cands E x) \<and> (x \<notin> set cs \<longrightarrow> cd x = cands E x)))"
proof (induction cs arbitrary: E)
  case Nil
  then have "E' = E\<lparr>cands := cands E\<rparr>" by simp
  then show ?case by blast
next
  case (Cons c cs)
  let ?E1 = "E\<lparr>cands := (cands E)(c := (cands E c)
                \<lparr>kf := vdiv A (vmul A (kf (cands E c)) (quota E) Up) (vote (cands E c)) Up\<rparr>)\<rparr>"
  from Cons.prems have nz: "vote (cands E c) \<noteq> 0" and r: "update_kf A cs ?E1 = Inr E'"
    by (auto split: if_splits)
  from Cons.IH [OF r] obtain cd where cd: "E' = ?E1\<lparr>cands := cd\<rparr>"
    "\<forall>x. cstatus (cd x) = cstatus (cands ?E1 x) \<and> vote (cd x) = vote (cands ?E1 x) \<and>
           order (cd x) = order (cands ?E1 x) \<and> (x \<notin> set cs \<longrightarrow> cd x = cands ?E1 x)"
    by blast
  have "E' = E\<lparr>cands := cd\<rparr>" using cd(1) by simp
  moreover have "\<forall>x. cstatus (cd x) = cstatus (cands E x) \<and> vote (cd x) = vote (cands E x) \<and>
           order (cd x) = order (cands E x) \<and> (x \<notin> set (c # cs) \<longrightarrow> cd x = cands E x)"
    using cd(2) by (auto split: if_splits)
  ultimately show ?case by blast
qed

lemma preserved_quota_inv: "preserved A rl (quota_inv A S)"
  unfolding preserved_def
proof (intro allI impI conjI)
  fix E :: "'a election" and E'
  assume "quota_inv A S E" "update_kf A (elected E) E = Inr E'"
  then show "quota_inv A S E'"
    using update_kf_frame [of A "elected E" E E'] by (auto simp: quota_inv_def calcQuota_def)
qed (auto simp: quota_inv_def calcQuota_def newRound_def calc_surplus_def elect_def defeat_def
      write_log_def set_status_def zero_cand_def tally_def Let_def reset_votes_def
      split: prod.splits)

lemma quota_inv_init: "quota_inv A (nSeats E0) (meek_init A E0)"
  by (simp add: quota_inv_def meek_init_def Let_def calcQuota_def)

text \<open>
  C2. In every round of a Meek or Warren count the quota is the round's \<open>votes\<close> divided by
  one more than the number of seats when the arithmetic is exact, and that quotient plus
  \<open>epsilon\<close> otherwise; every pass sets \<open>votes\<close> to the sum of the votes of the hopeful and
  elected candidates and the quota from it; and a candidate has the quota iff its vote
  exceeds the quota when the arithmetic is exact, and iff its vote reaches it otherwise.
\<close>

theorem meek_quota_rule:
  assumes "E \<in> meek_rounds A rl E0"
  shows "quota E = (if exact A then vdiv A (votes E) (V A (int (nSeats E0) + 1)) Down
                    else vdiv A (votes E) (V A (int (nSeats E0) + 1)) Down + epsilon A) \<and>
         votes (tally A rl E) =
           sum_list (map (\<lambda>c. vote (cands (tally A rl E) c)) (hopefulOrElected (tally A rl E))) \<and>
         quota (tally A rl E) =
           (if exact A then vdiv A (votes (tally A rl E)) (V A (int (nSeats E0) + 1)) Down
            else vdiv A (votes (tally A rl E)) (V A (int (nSeats E0) + 1)) Down + epsilon A) \<and>
         (hasQuota A E c \<longleftrightarrow>
           (if exact A then quota E < vote (cands E c) else quota E \<le> vote (cands E c)))"
proof -
  have q: "quota_inv A (nSeats E0) E"
    using assms preserved_quota_inv quota_inv_init by (rule preserved_meek_rounds)
  then have 1: "quota E = (if exact A then vdiv A (votes E) (V A (int (nSeats E0) + 1)) Down
                    else vdiv A (votes E) (V A (int (nSeats E0) + 1)) Down + epsilon A)"
    by (simp add: quota_inv_def calcQuota_def)
  have "quota_inv A (nSeats E0) (tally A rl E)"
    using q preserved_quota_inv [of A rl "nSeats E0"] by (simp add: preserved_def)
  then have 2: "quota (tally A rl E) =
           (if exact A then vdiv A (votes (tally A rl E)) (V A (int (nSeats E0) + 1)) Down
            else vdiv A (votes (tally A rl E)) (V A (int (nSeats E0) + 1)) Down + epsilon A)"
    by (simp add: quota_inv_def calcQuota_def)
  have 3: "votes (tally A rl E) =
           sum_list (map (\<lambda>c. vote (cands (tally A rl E) c)) (hopefulOrElected (tally A rl E)))"
    by (simp add: tally_def Let_def hopefulOrElected_def split: prod.splits)
  have 4: "hasQuota A E c \<longleftrightarrow>
           (if exact A then quota E < vote (cands E c) else quota E \<le> vote (cands E c))"
    by (simp add: hasQuota_def)
  from 1 2 3 4 show ?thesis by blast
qed

lemma castor_round1:
  obtains E :: "int election" where
    "E \<in> meek_rounds (fixed 1) meek_safe castor_pollux"
    "cids E = [1, 2, 3]" "nBallots E = 6" "votes E = 60"
    "cstatus (cands E 1) = Elected" "cstatus (cands E 3) = Hopeful"
    "vote (cands E 1) = 40" "vote (cands E 3) = 20"
proof -
  let ?R0 = "meek_init (fixed 1) castor_pollux :: int election"
  have nc: "\<not> countComplete ?R0" by code_simp
  have "case meek_round (fixed 1) meek_safe (omega_value (fixed 1) meek_safe) ?R0 of
          Some (Inr E) \<Rightarrow> cids E = [1, 2, 3] \<and> nBallots E = 6 \<and> votes E = 60 \<and>
            cstatus (cands E 1) = Elected \<and> cstatus (cands E 3) = Hopeful \<and>
            vote (cands E 1) = 40 \<and> vote (cands E 3) = 20
        | _ \<Rightarrow> False"
    by code_simp
  then obtain E where E: "meek_round (fixed 1) meek_safe (omega_value (fixed 1) meek_safe) ?R0 = Some (Inr E)"
    and v: "cids E = [1, 2, 3]" "nBallots E = 6" "votes E = 60"
      "cstatus (cands E 1) = Elected" "cstatus (cands E 3) = Hopeful"
      "vote (cands E 1) = 40" "vote (cands E 3) = 20"
    by (auto split: option.splits sum.splits)
  have m: "E \<in> meek_rounds (fixed 1) meek_safe castor_pollux"
    using meek_rounds.round0 nc E by (rule meek_rounds.next_round)
  show ?thesis using that [OF m v] .
qed

lemma castor_first_pass:
  "nBallots E = 6 \<Longrightarrow>
   (IS_none, 60, newRound E) \<in> iterate_passes (fixed 1) rl om (newRound E)"
  using iterate_passes.first_pass [of "fixed 1" "newRound E" rl om]
  by (simp add: V_def newRound_def)

theorem meek_quota_rule_witness:
  "\<exists>E. E \<in> meek_rounds (fixed 1) meek_safe castor_pollux \<and> votes E = 60 \<and> quota E = 21 \<and>
       hasQuota (fixed 1) E 1 \<and> \<not> hasQuota (fixed 1) E 3"
proof -
  obtain E :: "int election" where m: "E \<in> meek_rounds (fixed 1) meek_safe castor_pollux"
    and v: "votes E = 60" "vote (cands E 1) = 40" "vote (cands E 3) = 20"
    by (rule castor_round1)
  have ns: "nSeats (castor_pollux :: int election) = 2"
    by (simp add: castor_pollux_def election_of_def)
  note r = meek_quota_rule [OF m]
  have q: "quota E = 21"
    using r [of 1, THEN conjunct1] v by (simp add: V_def ns)
  have h: "hasQuota (fixed 1) E 1" "\<not> hasQuota (fixed 1) E 3"
    using r [of 1, THEN conjunct2, THEN conjunct2, THEN conjunct2]
      r [of 3, THEN conjunct2, THEN conjunct2, THEN conjunct2] q v
    by simp_all
  show ?thesis
    by (rule exI [of _ E]) (simp only: m v q h simp_thms)
qed

section \<open>The iteration\<close>

lemma update_kf_closed:
  "distinct cs \<Longrightarrow>
   update_kf A cs E =
     (if \<exists>c \<in> set cs. vote (cands E c) = 0 then Inl ZeroDivisionError
      else Inr (E\<lparr>cands := (\<lambda>c. if c \<in> set cs
                  then (cands E c)\<lparr>kf := vdiv A (vmul A (kf (cands E c)) (quota E) Up)
                                            (vote (cands E c)) Up\<rparr>
                  else cands E c)\<rparr>))"
proof (induction cs arbitrary: E)
  case Nil
  then show ?case by simp
next
  case (Cons c cs)
  let ?E' = "E\<lparr>cands := (cands E)(c := (cands E c)
                \<lparr>kf := vdiv A (vmul A (kf (cands E c)) (quota E) Up) (vote (cands E c)) Up\<rparr>)\<rparr>"
  have d: "distinct cs" and nin: "c \<notin> set cs" using Cons.prems by auto
  show ?case
  proof (cases "vote (cands E c) = 0")
    case True
    then show ?thesis by simp
  next
    case False
    have "update_kf A (c # cs) E = update_kf A cs ?E'" using False by simp
    also have "\<dots> = (if \<exists>x \<in> set cs. vote (cands ?E' x) = 0 then Inl ZeroDivisionError
      else Inr (?E'\<lparr>cands := (\<lambda>x. if x \<in> set cs
                  then (cands ?E' x)\<lparr>kf := vdiv A (vmul A (kf (cands ?E' x)) (quota ?E') Up)
                                            (vote (cands ?E' x)) Up\<rparr>
                  else cands ?E' x)\<rparr>))"
      by (rule Cons.IH [OF d])
    also have "\<dots> = (if \<exists>x \<in> set (c # cs). vote (cands E x) = 0 then Inl ZeroDivisionError
      else Inr (E\<lparr>cands := (\<lambda>x. if x \<in> set (c # cs)
                  then (cands E x)\<lparr>kf := vdiv A (vmul A (kf (cands E x)) (quota E) Up)
                                            (vote (cands E x)) Up\<rparr>
                  else cands E x)\<rparr>))"
      using False nin by (auto simp: fun_eq_iff)
    finally show ?thesis .
  qed
qed

lemma cids_elect [simp]: "cids (elect c m E) = cids E"
  by (simp add: elect_def write_log_def set_status_def)

lemma cids_fold_elect [simp]: "cids (fold (\<lambda>c. elect c m) ws E) = cids E"
  by (induction ws arbitrary: E) auto

lemma cids_calc_surplus [simp]: "cids (calc_surplus E) = cids E"
  by (simp add: calc_surplus_def)

lemma distinct_having: "distinct (cids E) \<Longrightarrow> distinct (having st E)"
  by (simp add: having_def)

text \<open>
  One pass of the iteration, started with no status, tests its ways out in this order: if a
  hopeful candidate was elected in the pass, it ends with \<^verbatim>\<open>IS_elected\<close>; otherwise, if the
  surplus is at most \<^verbatim>\<open>_omega\<close>, with \<^verbatim>\<open>IS_omega\<close>; otherwise, if the surplus is at least
  the last one, with \<^verbatim>\<open>IS_stable\<close>, the stable state logged; otherwise, if
  \<^verbatim>\<open>batchDefeat\<close> finds a batch, with \<^verbatim>\<open>IS_batch\<close> and the batch; otherwise the keep factors
  of the elected candidates are updated and the loop runs again, unless an elected
  candidate has no vote: then the division of the update raises.
\<close>

lemma iterate_priority_order:
  assumes "distinct (cids E)"
  shows "iterate_loop A rl om IS_none lastsurplus E =
    (let T = tally A rl E;
         winners = filter (hasQuota A T) (hopeful T);
         R = calc_surplus (fold (\<lambda>c. elect c ''Elect'') winners T)
     in if winners \<noteq> [] then Some (Inr (IS_elected, None, R))
        else if surplus R \<le> om then Some (Inr (IS_omega, None, R))
        else if lastsurplus \<le> surplus R
          then Some (Inr (IS_stable, None,
                 R\<lparr>rlog := rlog R @ [A_log ''Stable state detected'' (surplus R)]\<rparr>))
        else if batchDefeat rl R (surplus R) \<noteq> []
          then Some (Inr (IS_batch, Some (batchDefeat rl R (surplus R)), R))
        else if \<exists>c \<in> set (elected R). vote (cands R c) = 0 then Some (Inl ZeroDivisionError)
        else iterate_loop A rl om IS_none (surplus R)
               (R\<lparr>cands := (\<lambda>c. if c \<in> set (elected R)
                   then (cands R c)\<lparr>kf := vdiv A (vmul A (kf (cands R c)) (quota R) Up)
                                             (vote (cands R c)) Up\<rparr>
                   else cands R c)\<rparr>))"
proof -
  define T where "T = tally A rl E"
  define winners where "winners = filter (hasQuota A T) (hopeful T)"
  define R where "R = calc_surplus (fold (\<lambda>c. elect c ''Elect'') winners T)"
  have pass: "iterate_pass A rl (IS_none, E) = ((if winners = [] then IS_none else IS_elected), R)"
    by (simp add: iterate_pass_def find_winners_def find_winners_fold T_def winners_def R_def)
  have cidsR: "cids R = cids E"
    by (simp add: R_def T_def)
  have dR: "distinct (elected R)" using assms cidsR by (simp add: distinct_having)
  show ?thesis
    apply (subst iterate_loop.simps)
    apply (simp only: pass Let_def fst_conv snd_conv T_def [symmetric] winners_def [symmetric]
        R_def [symmetric])
    apply (simp add: update_kf_closed [OF dR] write_log_def)
    done
qed

lemma iterate_priority_order_example:
  "distinct (cids one_winner_round2) \<and>
   map_option (map_sum id fst)
     (iterate_loop (fixed 1) meek_safe 10 IS_none 30 one_winner_round2) = Some (Inr IS_omega)"
proof -
  have d: "distinct (cids one_winner_round2)" by code_simp
  have ev: "map_option (map_sum id fst)
     (iterate_loop (fixed 1) meek_safe 10 IS_none 30 one_winner_round2) = Some (Inr IS_omega)"
    by code_simp
  show ?thesis
    using d ev iterate_priority_order [OF d, of "fixed 1" meek_safe 10 30]
    by - (rule conjI, assumption, assumption)
qed

text \<open>
  C1. The claim gives the fifth way out as: the keep factors of the elected candidates are
  updated and the iteration repeats. In the fifth round of the count of
  \<open>seven_candidates\<close> the first four tests fail as the claim says, but candidate 1 is
  elected with no vote, and the update divides by it: the iteration raises
  \<^verbatim>\<open>ZeroDivisionError\<close> instead of repeating.
\<close>

theorem iterate_zero_vote_raises:
  "iterate (fixed 1) meek_omega2 (omega_value (fixed 1) meek_omega2) seven_round5
     = Some (Inl ZeroDivisionError)"
proof -
  have "case iterate (fixed 1) meek_omega2 (omega_value (fixed 1) meek_omega2) seven_round5 of
          Some (Inl ZeroDivisionError) \<Rightarrow> True | _ \<Rightarrow> False"
    by code_simp
  then show ?thesis
    by (simp split: option.splits sum.splits error.splits)
qed

section \<open>Keep factors of hopeful candidates\<close>

lemma preserved_hopeful_inv: "preserved A rl (hopeful_inv A)"
  unfolding preserved_def
proof (intro allI impI conjI)
  fix E :: "'a election" and E'
  assume h: "hopeful_inv A E" and u: "update_kf A (elected E) E = Inr E'"
  from update_kf_frame [OF u] obtain cd where cd: "E' = E\<lparr>cands := cd\<rparr>"
    "\<And>x. cstatus (cd x) = cstatus (cands E x)"
    "\<And>x. x \<notin> set (elected E) \<Longrightarrow> cd x = cands E x"
    by blast
  show "hopeful_inv A E'"
    unfolding hopeful_inv_def
  proof (intro ballI impI)
    fix c assume c: "c \<in> set (cids E')" "cstatus (cands E' c) = Hopeful"
    then have "cstatus (cands E c) = Hopeful" using cd(1,2) by simp
    moreover from this have "c \<notin> set (elected E)" by (simp add: having_def)
    ultimately show "kf (cands E' c) = V1 A" using h c cd(1,3) by (simp add: hopeful_inv_def)
  qed
next
  fix E :: "'a election" assume "hopeful_inv A E"
  then show "hopeful_inv A (newRound E)" by (simp add: hopeful_inv_def newRound_def)
next
  fix E :: "'a election" assume "hopeful_inv A E"
  then show "hopeful_inv A (tally A rl E)" by (simp add: hopeful_inv_def)
next
  fix E :: "'a election" assume "hopeful_inv A E"
  then show "hopeful_inv A (calc_surplus E)" by (simp add: hopeful_inv_def calc_surplus_def)
next
  fix E :: "'a election" and c m assume "hopeful_inv A E"
  then show "hopeful_inv A (elect c m E)"
    by (simp add: hopeful_inv_def elect_def write_log_def set_status_def)
next
  fix E :: "'a election" and a assume "hopeful_inv A E"
  then show "hopeful_inv A (write_log a E)" by (simp add: hopeful_inv_def write_log_def)
next
  fix E :: "'a election" and c m v assume "hopeful_inv A E"
  then show "hopeful_inv A (zero_cand c (defeat c m v E))"
    by (simp add: hopeful_inv_def zero_cand_def defeat_def write_log_def set_status_def)
qed

lemma fold_kf_vote:
  "fold (\<lambda>c cd. cd(c := (cd c)\<lparr>kf := k, vote := v\<rparr>)) cs cd x =
     (if x \<in> set cs then (cd x)\<lparr>kf := k, vote := v\<rparr> else cd x)"
  by (induction cs arbitrary: cd) auto

lemma fold_kf:
  "fold (\<lambda>c cd. cd(c := (cd c)\<lparr>kf := k\<rparr>)) cs cd x =
     (if x \<in> set cs then (cd x)\<lparr>kf := k\<rparr> else cd x)"
  by (induction cs arbitrary: cd) auto

lemma fold_first_votes:
  "same_cands cd (fold (\<lambda>b cd. case f b of None \<Rightarrow> cd
       | Some c \<Rightarrow> cd(c := (cd c)\<lparr>vote := vote (cd c) + g b\<rparr>)) bs cd)"
  by (induction bs arbitrary: cd) (simp_all add: same_cands_def split: option.splits)

lemma meek_init_cands:
  "same_cands
     (fold (\<lambda>c cd. cd(c := (cd c)\<lparr>kf := V1 A, vote := 0\<rparr>))
        (filter (\<lambda>i. cstatus (fold (\<lambda>c cd. cd(c := (cd c)\<lparr>kf := 0\<rparr>)) (having Withdrawn E0) (cands E0) i) = Hopeful) (cids E0))
        (fold (\<lambda>c cd. cd(c := (cd c)\<lparr>kf := 0\<rparr>)) (having Withdrawn E0) (cands E0)))
     (cands (meek_init A E0))"
  by (simp add: meek_init_def Let_def having_def fold_first_votes)

lemma hopeful_inv_init: "hopeful_inv A (meek_init A E0)"
proof -
  let ?R2 = "fold (\<lambda>c cd. cd(c := (cd c)\<lparr>kf := 0\<rparr>)) (having Withdrawn E0) (cands E0)"
  let ?h = "filter (\<lambda>i. cstatus (?R2 i) = Hopeful) (cids E0)"
  let ?R3 = "fold (\<lambda>c cd. cd(c := (cd c)\<lparr>kf := V1 A, vote := 0\<rparr>)) ?h ?R2"
  have s: "same_cands ?R3 (cands (meek_init A E0))" by (rule meek_init_cands)
  have c: "cids (meek_init A E0) = cids E0" by (simp add: meek_init_def Let_def)
  show ?thesis
    unfolding hopeful_inv_def c
  proof (intro ballI impI)
    fix x assume x: "x \<in> set (cids E0)" and h: "cstatus (cands (meek_init A E0) x) = Hopeful"
    from s h have "cstatus (?R3 x) = Hopeful" by (simp add: same_cands_def)
    then have "cstatus (?R2 x) = Hopeful" by (simp add: fold_kf_vote split: if_splits)
    with x have "x \<in> set ?h" by simp
    then have "kf (?R3 x) = V1 A" by (simp add: fold_kf_vote)
    with s show "kf (cands (meek_init A E0) x) = V1 A" by (simp add: same_cands_def)
  qed
qed

text \<open>
  C10. In every round of a Meek/Warren count, and at the head of every pass of its
  iteration, every hopeful candidate of the catalog has keep factor \<^verbatim>\<open>V1\<close>; the update of
  the keep factors leaves every candidate alone that is not elected; and a defeat sets the
  keep factor of the defeated candidate to \<^verbatim>\<open>V0\<close>.
\<close>

theorem hopeful_keep_factor:
  fixes E :: "('v::linordered_idom) election"
  assumes "E \<in> meek_rounds A rl E0"
  shows "(\<forall>c \<in> set (cids E). cstatus (cands E c) = Hopeful \<longrightarrow> kf (cands E c) = V1 A) \<and>
         (\<forall>i ls R. (i, ls, R) \<in> iterate_passes A rl om (newRound E) \<longrightarrow>
            (\<forall>c \<in> set (cids R). cstatus (cands R c) = Hopeful \<longrightarrow> kf (cands R c) = V1 A)) \<and>
         (\<forall>(R::'v election) R' c. update_kf A (elected R) R = Inr R' \<longrightarrow> cstatus (cands R c) \<noteq> Elected \<longrightarrow>
            kf (cands R' c) = kf (cands R c)) \<and>
         (\<forall>(R::'v election) c m v. kf (cands (zero_cand c (defeat c m v R)) c) = 0)"
proof -
  have h: "hopeful_inv A E"
    using assms preserved_hopeful_inv hopeful_inv_init by (rule preserved_meek_rounds)
  have n: "hopeful_inv A (newRound E)"
    using h preserved_hopeful_inv [of A rl] by (simp add: preserved_def)
  have p: "hopeful_inv A R" if "(i, ls, R) \<in> iterate_passes A rl om (newRound E)" for i ls R
    using that preserved_hopeful_inv n by (rule preserved_passes)
  have u: "kf (cands R' c) = kf (cands R c)"
    if "update_kf A (elected R) R = Inr R'" "cstatus (cands R c) \<noteq> Elected"
    for R R' :: "'v election" and c
  proof -
    from update_kf_frame [OF that(1)] obtain cd where cd: "R' = R\<lparr>cands := cd\<rparr>"
      "\<And>x. x \<notin> set (elected R) \<Longrightarrow> cd x = cands R x"
      by blast
    have "c \<notin> set (elected R)" using that(2) by (simp add: having_def)
    then show ?thesis using cd by simp
  qed
  have z: "kf (cands (zero_cand c (defeat c m v R)) c) = 0" for R :: "'v election" and c m v
    by (simp add: zero_cand_def)
  have 1: "\<forall>c \<in> set (cids E). cstatus (cands E c) = Hopeful \<longrightarrow> kf (cands E c) = V1 A"
    using h by (simp add: hopeful_inv_def)
  have 2: "\<forall>i ls R. (i, ls, R) \<in> iterate_passes A rl om (newRound E) \<longrightarrow>
            (\<forall>c \<in> set (cids R). cstatus (cands R c) = Hopeful \<longrightarrow> kf (cands R c) = V1 A)"
    using p by (simp add: hopeful_inv_def)
  have 3: "\<forall>(R::'v election) R' c. update_kf A (elected R) R = Inr R' \<longrightarrow> cstatus (cands R c) \<noteq> Elected \<longrightarrow>
            kf (cands R' c) = kf (cands R c)"
    using u by blast
  have 4: "\<forall>(R::'v election) c m v. kf (cands (zero_cand c (defeat c m v R)) c) = 0"
    using z by blast
  show ?thesis
    by (rule conjI [OF 1 conjI [OF 2 conjI [OF 3 4]]])
qed

theorem hopeful_keep_factor_witness:
  "\<exists>E. E \<in> meek_rounds (fixed 1) meek_safe castor_pollux \<and>
        (IS_none, 60, newRound E) \<in> iterate_passes (fixed 1) meek_safe 10 (newRound E) \<and>
        3 \<in> set (cids E) \<and> cstatus (cands E 3) = Hopeful \<and> kf (cands E 3) = 10 \<and>
        cstatus (cands E 1) = Elected"
proof -
  obtain E :: "int election" where m: "E \<in> meek_rounds (fixed 1) meek_safe castor_pollux"
    and v: "cids E = [1, 2, 3]" "nBallots E = 6"
    and s: "cstatus (cands E 1) = Elected" "cstatus (cands E 3) = Hopeful"
    by (rule castor_round1)
  have f: "(IS_none, 60, newRound E) \<in> iterate_passes (fixed 1) meek_safe 10 (newRound E)"
    using v(2) by (rule castor_first_pass)
  have "\<forall>c \<in> set (cids E). cstatus (cands E c) = Hopeful \<longrightarrow> kf (cands E c) = V1 (fixed 1)"
    by (rule hopeful_keep_factor [OF m, of 10, THEN conjunct1])
  with v s have k: "kf (cands E 3) = 10"
    by simp
  have c: "3 \<in> set (cids E)" using v(1) by simp
  show ?thesis
    by (rule exI [of _ E]) (simp only: m f c k s simp_thms)
qed

section \<open>Conservation of the votes\<close>

lemma livesum_update:
  "distinct L \<Longrightarrow>
   livesum L (cd(c := (cd c)\<lparr>vote := v\<rparr>)) =
     livesum L cd + (if c \<in> set L then v - vote (cd c) else 0)"
  unfolding livesum_def by (induction L) auto

lemma meek_ranking_conserve:
  assumes "distinct L" "\<forall>x. vmul A x 0 Down = 0"
  shows "\<forall>c \<in> set cs. c \<in> set L \<or> kf (cd c) = 0 \<Longrightarrow>
         livesum L (fst (meek_ranking A m cs (cd, w, r))) + snd (snd (meek_ranking A m cs (cd, w, r)))
           = livesum L cd + r"
proof (induction cs arbitrary: cd w r)
  case Nil
  then show ?case by simp
next
  case (Cons c cs)
  let ?kv = "vmul A (w * of_int m) (kf (cd c)) Down"
  let ?cd = "cd(c := (cd c)\<lparr>vote := vote (cd c) + ?kv\<rparr>)"
  have kv: "c \<notin> set L \<Longrightarrow> ?kv = 0" using Cons.prems assms(2) by auto
  have s: "livesum L ?cd + (r - ?kv) = livesum L cd + r"
    using kv by (simp add: livesum_update [OF assms(1)])
  have p: "\<forall>x \<in> set cs. x \<in> set L \<or> kf (?cd x) = 0" using Cons.prems by auto
  let ?w = "vmul A w (V1 A - kf (cd c)) Down"
  show ?case
  proof (cases "?w \<le> 0")
    case True
    then have eq: "meek_ranking A m (c # cs) (cd, w, r) = (?cd, ?w, r - ?kv)"
      by (simp add: Let_def)
    show ?thesis by (simp only: eq fst_conv snd_conv s)
  next
    case False
    then have eq: "meek_ranking A m (c # cs) (cd, w, r) = meek_ranking A m cs (?cd, ?w, r - ?kv)"
      by (simp add: Let_def)
    show ?thesis by (simp only: eq Cons.IH [OF p] s)
  qed
qed

lemma kf_meek_ranking [simp]: "kf (fst (meek_ranking A m cs (cd, w, r)) x) = kf (cd x)"
  using same_cands_meek_ranking [of cd A m cs w r] by (simp add: same_cands_def)

lemma V_add: "V A (a + b) = V A a + V A b"
  by (simp add: V_def algebra_simps)

lemma distribute_conserve:
  assumes "distinct L" "\<forall>x. vmul A x 0 Down = 0" "\<not> warren rl"
  shows "\<forall>b \<in> set bs. \<forall>c \<in> set (ranking b). c \<in> set L \<or> kf (cd c) = 0 \<Longrightarrow>
         livesum L (fst (distribute A rl bs (cd, res, dn))) + fst (snd (distribute A rl bs (cd, res, dn)))
           = livesum L cd + res + V A (sum_list (map multiplier bs))"
proof (induction bs arbitrary: cd res dn)
  case Nil
  then show ?case by (simp add: V_def)
next
  case (Cons b bs)
  obtain cd' w r where e: "meek_ranking A (multiplier b) (ranking b) (cd, V1 A, V A (multiplier b)) = (cd', w, r)"
    by (metis prod_cases3)
  have rk: "\<forall>c \<in> set (ranking b). c \<in> set L \<or> kf (cd c) = 0" using Cons.prems by simp
  have c: "livesum L cd' + r = livesum L cd + V A (multiplier b)"
    using meek_ranking_conserve [OF assms(1,2) rk, of "multiplier b" "V1 A" "V A (multiplier b)"] e
    by simp
  have k: "\<And>x. kf (cd' x) = kf (cd x)"
    using kf_meek_ranking [of A "multiplier b" "ranking b" cd "V1 A" "V A (multiplier b)"] e by simp
  have p: "\<forall>b \<in> set bs. \<forall>c \<in> set (ranking b). c \<in> set L \<or> kf (cd' c) = 0"
    using Cons.prems k by simp
  have "livesum L (fst (distribute A rl bs (cd', res + r, dn @ [b\<lparr>weight := w, bresidual := r\<rparr>])))
          + fst (snd (distribute A rl bs (cd', res + r, dn @ [b\<lparr>weight := w, bresidual := r\<rparr>])))
        = livesum L cd' + (res + r) + V A (sum_list (map multiplier bs))"
    by (rule Cons.IH [OF p])
  then show ?case
    using c assms(3) e by (simp add: V_add algebra_simps)
qed

lemma fold_reset:
  "fold (\<lambda>c cd. cd(c := (cd c)\<lparr>vote := 0\<rparr>)) cs cd x =
     (if x \<in> set cs then (cd x)\<lparr>vote := 0\<rparr> else cd x)"
  by (induction cs arbitrary: cd) auto

lemma livesum_reset:
  "livesum L (fold (\<lambda>c cd. cd(c := (cd c)\<lparr>vote := 0::'v::linordered_idom\<rparr>)) L cd) = 0"
  by (simp add: livesum_def fold_reset cong: map_cong)

lemma tally_parts:
  "cands (tally A rl E) = fst (distribute A rl (ballots E) (cands (reset_votes E), 0, [])) \<and>
   residual (tally A rl E) = fst (snd (distribute A rl (ballots E) (cands (reset_votes E), 0, []))) \<and>
   ballots (tally A rl E) = snd (snd (distribute A rl (ballots E) (cands (reset_votes E), 0, [])))"
  by (simp add: tally_def Let_def reset_votes_def split: prod.splits)

lemma tally_conserve:
  assumes "distinct (cids E)" "\<forall>x. vmul A x 0 Down = 0" "\<not> warren rl"
    and "\<forall>b \<in> set (ballots E). \<forall>c \<in> set (ranking b).
           c \<in> set (hopefulOrElected E) \<or> kf (cands E c) = 0"
  shows "livesum (hopefulOrElected E) (cands (tally A rl E)) + residual (tally A rl E)
           = V A (sum_list (map multiplier (ballots E)))"
proof -
  let ?L = "hopefulOrElected E"
  let ?cd = "cands (reset_votes E)"
  have d: "distinct ?L" using assms(1) by (simp add: hopefulOrElected_def)
  have k: "\<And>x. kf (?cd x) = kf (cands E x)"
    using same_cands_reset [of "cands E" ?L] by (simp add: reset_votes_def same_cands_def)
  have p: "\<forall>b \<in> set (ballots E). \<forall>c \<in> set (ranking b). c \<in> set ?L \<or> kf (?cd c) = 0"
    using assms(4) k by simp
  have z: "livesum ?L ?cd = 0" by (simp add: reset_votes_def livesum_reset)
  show ?thesis
    using distribute_conserve [OF d assms(2,3) p, of 0 "[]"] z by (simp add: tally_parts)
qed

lemma distribute_ballots:
  "map multiplier (snd (snd (distribute A rl bs (cd, res, dn)))) = map multiplier dn @ map multiplier bs \<and>
   map ranking (snd (snd (distribute A rl bs (cd, res, dn)))) = map ranking dn @ map ranking bs"
  by (induction bs arbitrary: cd res dn) (auto split: prod.splits)

lemma ballots_tally [simp]:
  "map multiplier (ballots (tally A rl E)) = map multiplier (ballots E)"
  "map ranking (ballots (tally A rl E)) = map ranking (ballots E)"
  using distribute_ballots [of A rl "ballots E" "cands (reset_votes E)" 0 "[]"]
  by (simp_all add: tally_parts)

lemma preserved_meek_inv: "preserved A rl (meek_inv E0)"
  unfolding preserved_def
proof (intro allI impI conjI)
  fix E :: "'a election" and E'
  assume h: "meek_inv E0 E" and u: "update_kf A (elected E) E = Inr E'"
  from update_kf_frame [OF u] obtain cd where cd: "E' = E\<lparr>cands := cd\<rparr>"
    "\<And>x. cstatus (cd x) = cstatus (cands E x)"
    "\<And>x. x \<notin> set (elected E) \<Longrightarrow> cd x = cands E x"
    by blast
  have "cstatus (cd c) = Hopeful \<or> cstatus (cd c) = Elected \<or> kf (cd c) = 0"
    if "c \<in> set (cids E)" for c
  proof (cases "c \<in> set (elected E)")
    case True
    then show ?thesis using cd(2) by (simp add: having_def)
  next
    case False
    then show ?thesis using cd(3) h that by (simp add: meek_inv_def)
  qed
  then show "meek_inv E0 E'" using h cd(1) by (simp add: meek_inv_def)
next
  fix E :: "'a election" assume "meek_inv E0 E"
  then show "meek_inv E0 (newRound E)" by (simp add: meek_inv_def newRound_def)
next
  fix E :: "'a election" assume "meek_inv E0 E"
  then show "meek_inv E0 (tally A rl E)" by (simp add: meek_inv_def)
next
  fix E :: "'a election" assume "meek_inv E0 E"
  then show "meek_inv E0 (calc_surplus E)" by (simp add: meek_inv_def calc_surplus_def)
next
  fix E :: "'a election" and c m assume "meek_inv E0 E"
  then show "meek_inv E0 (elect c m E)"
    by (simp add: meek_inv_def elect_def write_log_def set_status_def)
next
  fix E :: "'a election" and a assume "meek_inv E0 E"
  then show "meek_inv E0 (write_log a E)" by (simp add: meek_inv_def write_log_def)
next
  fix E :: "'a election" and c m v assume "meek_inv E0 E"
  then show "meek_inv E0 (zero_cand c (defeat c m v E))"
    by (simp add: meek_inv_def zero_cand_def defeat_def write_log_def set_status_def)
qed

lemma meek_init_frame:
  "cids (meek_init A E) = cids E \<and> nBallots (meek_init A E) = nBallots E \<and>
   nSeats (meek_init A E) = nSeats E \<and> ballots (meek_init A E) = ballots E"
  by (simp add: meek_init_def Let_def)

lemma meek_inv_init:
  assumes "well_formed E0"
  shows "meek_inv E0 (meek_init A E0)"
proof -
  let ?R2 = "fold (\<lambda>c cd. cd(c := (cd c)\<lparr>kf := 0\<rparr>)) (having Withdrawn E0) (cands E0)"
  let ?h = "filter (\<lambda>i. cstatus (?R2 i) = Hopeful) (cids E0)"
  let ?R3 = "fold (\<lambda>c cd. cd(c := (cd c)\<lparr>kf := V1 A, vote := 0\<rparr>)) ?h ?R2"
  have s: "same_cands ?R3 (cands (meek_init A E0))" by (rule meek_init_cands)
  have "cstatus (cands (meek_init A E0) c) = Hopeful \<or> kf (cands (meek_init A E0) c) = 0"
    if c: "c \<in> set (cids E0)" for c
  proof -
    have st: "cstatus (cands (meek_init A E0) c) = cstatus (cands E0 c)"
      using s by (simp add: same_cands_def fold_kf_vote fold_kf)
    have "cstatus (cands E0 c) = Hopeful \<or> cstatus (cands E0 c) = Withdrawn"
      using assms c by (simp add: well_formed_def)
    then show ?thesis
    proof
      assume "cstatus (cands E0 c) = Hopeful"
      then show ?thesis using st by simp
    next
      assume w: "cstatus (cands E0 c) = Withdrawn"
      then have "c \<in> set (having Withdrawn E0)" using c by (simp add: having_def)
      then have "kf (?R3 c) = 0" using w by (simp add: fold_kf_vote fold_kf)
      then show ?thesis using s by (simp add: same_cands_def)
    qed
  qed
  then show ?thesis
    by (auto simp: meek_inv_def meek_init_frame)
qed

text \<open>
  C7. In a Meek count of a well-formed election, after the votes of any pass of any round
  are distributed, the votes of the hopeful and elected candidates and the residual of the
  round add up to the value of the number of ballots. Additions and subtractions of the
  value class are exact, so this holds for every kernel whose rounded product with zero is
  zero, and the difference is within the bound of one \<open>epsilon\<close> for each ballot.
\<close>

theorem meek_conservation:
  fixes E0 :: "('v::linordered_idom) election"
  assumes "well_formed E0" and "\<forall>x. vmul A x 0 Down = 0" and "0 \<le> epsilon A"
    and "\<not> warren rl"
    and "E \<in> meek_rounds A rl E0"
    and "(i, ls, R) \<in> iterate_passes A rl om (newRound E)"
  shows "livesum (hopefulOrElected (tally A rl R)) (cands (tally A rl R)) + residual (tally A rl R)
           = V A (nBallots E0) \<and>
         votes (tally A rl R) = livesum (hopefulOrElected (tally A rl R)) (cands (tally A rl R)) \<and>
         \<bar>votes (tally A rl R) + residual (tally A rl R) - V A (nBallots E0)\<bar>
           \<le> of_nat (length (ballots E0)) * epsilon A"
proof -
  have "meek_inv E0 E"
    using assms(5) preserved_meek_inv meek_inv_init [OF assms(1)] by (rule preserved_meek_rounds)
  then have "meek_inv E0 (newRound E)"
    using preserved_meek_inv [of A rl E0] by (simp add: preserved_def)
  with assms(6) preserved_meek_inv have inv: "meek_inv E0 R" by (rule preserved_passes)
  have d: "distinct (cids R)" using inv assms(1) by (simp add: meek_inv_def well_formed_def)
  have rk: "\<forall>b \<in> set (ballots R). set (ranking b) \<subseteq> set (cids R)"
  proof
    fix b assume "b \<in> set (ballots R)"
    then have "ranking b \<in> set (map ranking (ballots E0))"
      using inv by (metis meek_inv_def image_eqI set_map)
    then obtain b0 where b0: "b0 \<in> set (ballots E0)" "ranking b0 = ranking b"
      by auto
    have "set (ranking b0) \<subseteq> set (cids E0)"
      using assms(1) b0(1) by (simp add: well_formed_def)
    then show "set (ranking b) \<subseteq> set (cids R)"
      using inv b0(2) by (simp add: meek_inv_def)
  qed
  have p: "\<forall>b \<in> set (ballots R). \<forall>c \<in> set (ranking b).
           c \<in> set (hopefulOrElected R) \<or> kf (cands R c) = 0"
  proof (intro ballI)
    fix b c assume b: "b \<in> set (ballots R)" and c: "c \<in> set (ranking b)"
    from rk b c have cc: "c \<in> set (cids R)" by blast
    then have "cstatus (cands R c) = Hopeful \<or> cstatus (cands R c) = Elected \<or> kf (cands R c) = 0"
      using inv by (simp add: meek_inv_def)
    then show "c \<in> set (hopefulOrElected R) \<or> kf (cands R c) = 0"
      using cc by (auto simp: hopefulOrElected_def)
  qed
  have n: "sum_list (map multiplier (ballots R)) = nBallots E0"
    using inv assms(1) by (simp add: meek_inv_def well_formed_def)
  have 1: "livesum (hopefulOrElected (tally A rl R)) (cands (tally A rl R)) + residual (tally A rl R)
           = V A (nBallots E0)"
    using tally_conserve [OF d assms(2,4) p] n by simp
  have 2: "votes (tally A rl R) = livesum (hopefulOrElected (tally A rl R)) (cands (tally A rl R))"
    by (simp add: tally_def Let_def hopefulOrElected_def livesum_def split: prod.splits)
  have "0 \<le> of_nat (length (ballots E0)) * epsilon A" using assms(3) by simp
  then have 3: "\<bar>votes (tally A rl R) + residual (tally A rl R) - V A (nBallots E0)\<bar>
           \<le> of_nat (length (ballots E0)) * epsilon A"
    using 1 2 by simp
  from 1 2 3 show ?thesis by (intro conjI)
qed

theorem meek_conservation_witness:
  "well_formed (castor_pollux :: int election) \<and> (\<forall>x. vmul (fixed 1) x 0 Down = 0) \<and>
   0 \<le> epsilon (fixed 1) \<and> \<not> warren meek_safe \<and>
   (\<exists>E. E \<in> meek_rounds (fixed 1) meek_safe castor_pollux \<and>
        (IS_none, 60, newRound E) \<in> iterate_passes (fixed 1) meek_safe 10 (newRound E) \<and>
        votes (tally (fixed 1) meek_safe (newRound E))
          + residual (tally (fixed 1) meek_safe (newRound E)) = 60)"
proof -
  have w: "well_formed (castor_pollux :: int election)"
    by (simp add: well_formed_def castor_pollux_def election_of_def)
  have z: "\<forall>x. vmul (fixed 1) x 0 Down = 0" by simp
  have e: "0 \<le> epsilon (fixed 1)" by simp
  have nw: "\<not> warren meek_safe" by (simp add: meek_safe_def)
  obtain E :: "int election" where m: "E \<in> meek_rounds (fixed 1) meek_safe castor_pollux"
    and v: "nBallots E = 6"
    by (rule castor_round1)
  have f: "(IS_none, 60, newRound E) \<in> iterate_passes (fixed 1) meek_safe 10 (newRound E)"
    using v by (rule castor_first_pass)
  have n: "nBallots (castor_pollux :: int election) = 6"
    by (simp add: castor_pollux_def election_of_def)
  note c = meek_conservation [OF w z e nw m f]
  have "votes (tally (fixed 1) meek_safe (newRound E))
          + residual (tally (fixed 1) meek_safe (newRound E)) = 60"
    using c [THEN conjunct1] c [THEN conjunct2, THEN conjunct1] by (simp add: n V_def)
  with m f have "\<exists>E. E \<in> meek_rounds (fixed 1) meek_safe castor_pollux \<and>
        (IS_none, 60, newRound E) \<in> iterate_passes (fixed 1) meek_safe 10 (newRound E) \<and>
        votes (tally (fixed 1) meek_safe (newRound E))
          + residual (tally (fixed 1) meek_safe (newRound E)) = 60"
    by blast
  with w z e nw show ?thesis by (intro conjI)
qed

section \<open>The defeat after an iteration\<close>









end
